theory Spec2Isabelle
  imports Main
begin

section \<open>The multi-pass transform-reduce of \<^verbatim>\<open>sycl/algorithm/transform_reduce.hpp\<close>\<close>

text \<open>
  The development embeds \<^verbatim>\<open>sycl::impl::transform_reduce\<close>. Sizes and indices
  (\<^verbatim>\<open>size_t\<close>, and the \<^verbatim>\<open>int\<close> pass counter) are natural numbers: every
  value is bounded by the length of the input, which is the length of a list here, so no
  wrap-around is reachable. The input range \<open>[first, last)\<close> is the list of its elements.
  The element type of the range is \<open>'a\<close>, the type \<^verbatim>\<open>T\<close> of the result is \<open>'b\<close>.
\<close>

subsection \<open>What the host asks of the runtime\<close>

text \<open>
  Each call of the host code into the SYCL runtime is recorded, in program order, as an
  event. A submission records the values its command group captured by copy
  (\<^verbatim>\<open>passes\<close>, \<^verbatim>\<open>length\<close>, \<^verbatim>\<open>local\<close>) and the global size
  of its nd-range.
\<close>

datatype event =
    Get_queue
  | Create_bufR nat
  | Get_device
  | Get_max_work_group_size
  | Create_bufI nat
  | Submit (pass_of: nat) (length_of: nat) (local_of: nat) (global_of: nat)
  | Wait_and_throw
  | Host_read nat

fun is_Submit :: "event \<Rightarrow> bool" where
  "is_Submit (Submit p l loc g) = True"
| "is_Submit e = False"

fun is_Create :: "event \<Rightarrow> bool" where
  "is_Create (Create_bufR n) = True"
| "is_Create (Create_bufI n) = True"
| "is_Create e = False"

datatype error = Zero_work_group_size

subsection \<open>The work-size planner and the reduction strategy\<close>

text \<open>
  Modelled from the spec: \<^verbatim>\<open>exec.calculateGlobalSize\<close> belongs to the execution
  policy, whose header is not part of the sources at hand. The global size is the smallest
  multiple of the local size that is at least the number of elements (ceiling division).
\<close>

definition calculateGlobalSize :: "nat \<Rightarrow> nat \<Rightarrow> nat" where
  "calculateGlobalSize elements localSize =
     ((elements + localSize - 1) div localSize) * localSize"

text \<open>
  Modelled from the spec: \<^verbatim>\<open>ReductionStrategy::workitem_get_from(unary_op, aI)\<close>
  (header \<^verbatim>\<open>algorithm_composite_patterns.hpp\<close> is not part of the sources at
  hand). The work-item with global index \<open>globalid\<close> reads the input at \<open>globalid\<close> and applies the
  unary transform; a work-item past the logical length is excluded from the fold
  (\<open>None\<close> in its scratch slot).
\<close>

definition workitem_get_from_op ::
  "nat \<Rightarrow> ('a \<Rightarrow> 'b) \<Rightarrow> 'a list \<Rightarrow> nat \<Rightarrow> 'b option" where
  "workitem_get_from_op length' unary_op aI globalid =
     (if globalid < length' then Some (unary_op (aI ! globalid)) else None)"

text \<open>
  Modelled from the spec: \<^verbatim>\<open>ReductionStrategy::workitem_get_from(aR)\<close>. The
  work-item reads the already combined value at its global index, with no transform;
  a work-item past the logical length is excluded from the fold.
\<close>

definition workitem_get_from :: "nat \<Rightarrow> 'b list \<Rightarrow> nat \<Rightarrow> 'b option" where
  "workitem_get_from length' aR globalid = (if globalid < length' then Some (aR ! globalid) else None)"

text \<open>
  Modelled from the spec: one fold of a pair of scratch entries. An excluded entry
  contributes nothing.
\<close>

fun combine_opt :: "('b \<Rightarrow> 'b \<Rightarrow> 'b) \<Rightarrow> 'b option \<Rightarrow> 'b option \<Rightarrow> 'b option" where
  "combine_opt binary_op (Some x) (Some y) = Some (binary_op x y)"
| "combine_opt binary_op (Some x) None = Some x"
| "combine_opt binary_op None y = y"

text \<open>
  Modelled from the spec: one round of the tree combine folds the pairs of neighbouring
  scratch entries, which halves the number of active entries.
\<close>

fun tree_round :: "('b \<Rightarrow> 'b \<Rightarrow> 'b) \<Rightarrow> 'b option list \<Rightarrow> 'b option list" where
  "tree_round binary_op (x # y # zs) = combine_opt binary_op x y # tree_round binary_op zs"
| "tree_round binary_op zs = zs"

text \<open>
  Modelled from the spec: \<^verbatim>\<open>ReductionStrategy::combine_threads\<close>. Rounds are
  repeated until one entry remains in the scratch storage of the group.
\<close>

function combine_threads :: "('b \<Rightarrow> 'b \<Rightarrow> 'b) \<Rightarrow> 'b option list \<Rightarrow> 'b option list" where
  "combine_threads binary_op scratch =
     (if length scratch \<le> 1 then scratch
      else combine_threads binary_op (tree_round binary_op scratch))"
  by pat_completeness auto
termination
proof (relation "measure (\<lambda>(binary_op, scratch). length scratch)")
  show "wf (measure (\<lambda>(binary_op :: 'b \<Rightarrow> 'b \<Rightarrow> 'b, scratch :: 'b option list). length scratch))"
    by simp
next
  fix binary_op :: "'b \<Rightarrow> 'b \<Rightarrow> 'b" and scratch :: "'b option list"
  assume "\<not> length scratch \<le> 1"
  moreover have "length (tree_round binary_op zs) = (length zs + 1) div 2" for zs
    by (induction binary_op zs rule: tree_round.induct) simp_all
  ultimately show "((binary_op, tree_round binary_op scratch), (binary_op, scratch))
      \<in> measure (\<lambda>(binary_op, scratch). length scratch)"
    by simp
qed

declare combine_threads.simps [simp del]

text \<open>
  Modelled from the spec: \<^verbatim>\<open>ReductionStrategy::workgroup_write_to\<close>. One
  work-item of the group writes the combined value of the group to the slot of the group
  in the partial-result buffer. A group all of whose work-items were excluded has no
  combined value and leaves its slot as it was.
\<close>

definition workgroup_write_to :: "nat \<Rightarrow> 'b option list \<Rightarrow> 'b list \<Rightarrow> 'b list" where
  "workgroup_write_to group_id scratch aR =
     (case scratch of Some v # rest \<Rightarrow> aR[group_id := v] | _ \<Rightarrow> aR)"

subsection \<open>The kernel of one pass\<close>

text \<open>
  Lines 89 to 93 of the source: on pass 0 the work-item takes its value from the input
  buffer through the unary operation, on a later pass from the partial-result buffer.
\<close>

definition workitem_ingest ::
  "nat \<Rightarrow> nat \<Rightarrow> ('a \<Rightarrow> 'b) \<Rightarrow> 'a list \<Rightarrow> 'b list \<Rightarrow> nat \<Rightarrow> 'b option" where
  "workitem_ingest passes length' unary_op aI aR globalid =
     (if passes = 0 then workitem_get_from_op length' unary_op aI globalid
      else workitem_get_from length' aR globalid)"

text \<open>
  The body of the kernel for the \<open>local\<close> work-items of one work-group: every work-item
  stages its value in its scratch slot, the group combines, and the scratch is what
  \<^verbatim>\<open>workgroup_write_to\<close> then sees.
\<close>

definition workgroup_scratch ::
  "nat \<Rightarrow> nat \<Rightarrow> nat \<Rightarrow> ('a \<Rightarrow> 'b) \<Rightarrow> 'a list \<Rightarrow> 'b list \<Rightarrow> nat \<Rightarrow> 'b option list" where
  "workgroup_scratch passes length' local unary_op aI aR group_id =
     map (\<lambda>localid. workitem_ingest passes length' unary_op aI aR (group_id * local + localid))
       [0..<local]"

definition workgroup_run ::
  "nat \<Rightarrow> nat \<Rightarrow> nat \<Rightarrow> ('a \<Rightarrow> 'b) \<Rightarrow> ('b \<Rightarrow> 'b \<Rightarrow> 'b) \<Rightarrow> 'a list \<Rightarrow> 'b list \<Rightarrow> nat
     \<Rightarrow> 'b option list" where
  "workgroup_run passes length' local unary_op binary_op aI aR group_id =
     combine_threads binary_op (workgroup_scratch passes length' local unary_op aI aR group_id)"

text \<open>
  The nd-range of a pass has \<open>max global local\<close> work-items in groups of \<open>local\<close>. Every
  group reads the partial-result buffer as the previous pass left it (\<open>aR\<close>) and writes
  its own slot. Group \<open>g\<close> reads slots from \<open>g * local\<close> on and the groups before it write
  slots below \<open>g\<close>, so running the groups one after another in the order of their indices
  gives the same buffer. A schedule in which a group reads a slot that another group of
  the same pass has already overwritten is not modelled.
\<close>

definition parallel_for ::
  "nat \<Rightarrow> nat \<Rightarrow> nat \<Rightarrow> nat \<Rightarrow> ('a \<Rightarrow> 'b) \<Rightarrow> ('b \<Rightarrow> 'b \<Rightarrow> 'b) \<Rightarrow> 'a list \<Rightarrow> 'b list
     \<Rightarrow> 'b list" where
  "parallel_for passes length' local global unary_op binary_op aI aR =
     fold (\<lambda>group_id out.
             workgroup_write_to group_id
               (workgroup_run passes length' local unary_op binary_op aI aR group_id) out)
       [0..<max global local div local] aR"

subsection \<open>The pass loop and the function\<close>

record 'b loop_state =
  passes :: nat
  length' :: nat
  bufR :: "'b list"
  trace :: "event list"

text \<open>
  Lines 73 to 100: one turn of the \<^verbatim>\<open>do\<close> loop. The queue runs the command
  groups in the order of their submission where they use the same buffer, so the effect
  of the kernel on \<open>bufR\<close> is applied at the submission.
\<close>

definition pass_body ::
  "nat \<Rightarrow> nat \<Rightarrow> ('a \<Rightarrow> 'b) \<Rightarrow> ('b \<Rightarrow> 'b \<Rightarrow> 'b) \<Rightarrow> 'a list \<Rightarrow> 'b loop_state \<Rightarrow> 'b loop_state" where
  "pass_body local global unary_op binary_op bufI s =
     \<lparr> passes = passes s + 1,
       length' = length' s div local,
       bufR = parallel_for (passes s) (length' s) local global unary_op binary_op bufI (bufR s),
       trace = trace s @ [Submit (passes s) (length' s) local (max global local)] \<rparr>"

text \<open>
  Lines 72 to 101: \<^verbatim>\<open>do { ... } while (length > 1)\<close>. The loop need not end, so
  its result is optional: \<open>None\<close> is a loop that runs forever.
\<close>

partial_function (option) pass_loop ::
  "nat \<Rightarrow> nat \<Rightarrow> ('a \<Rightarrow> 'b) \<Rightarrow> ('b \<Rightarrow> 'b \<Rightarrow> 'b) \<Rightarrow> 'a list \<Rightarrow> 'b loop_state
     \<Rightarrow> 'b loop_state option" where
  "pass_loop local global unary_op binary_op bufI s =
     (if length' (pass_body local global unary_op binary_op bufI s) > 1
      then pass_loop local global unary_op binary_op bufI
             (pass_body local global unary_op binary_op bufI s)
      else Some (pass_body local global unary_op binary_op bufI s))"

declare pass_loop.simps [code]

record 'b run =
  result :: 'b
  events :: "event list"

text \<open>
  Lines 52 to 106. \<open>max_work_group_size\<close> is what the device of the policy's queue
  reports. \<open>uninit\<close> gives the contents of the partial-result buffer as it is
  constructed: the buffer is not initialised, slot \<open>i\<close> holds \<open>uninit i\<close> until it is
  written. A local size of 0 makes the planning of the work sizes divide by zero; the
  call then fails with \<open>Zero_work_group_size\<close>. \<open>None\<close> is a call that never returns.
  A failure of the device (an exception out of \<^verbatim>\<open>submit\<close> or
  \<^verbatim>\<open>wait_and_throw\<close>) is not modelled.
\<close>

definition transform_reduce ::
  "nat \<Rightarrow> (nat \<Rightarrow> 'b) \<Rightarrow> 'a list \<Rightarrow> ('a \<Rightarrow> 'b) \<Rightarrow> 'b \<Rightarrow> ('b \<Rightarrow> 'b \<Rightarrow> 'b)
     \<Rightarrow> (error + 'b run) option" where
  "transform_reduce max_work_group_size uninit xs unary_op init binary_op =
     (let vectorSize = length xs;
          bufR0 = map uninit [0..<vectorSize];
          tr0 = [Get_queue, Create_bufR vectorSize]
      in if vectorSize < 1 then Some (Inr \<lparr> result = init, events = tr0 \<rparr>)
         else
           let local = min max_work_group_size vectorSize;
               bufI = xs;
               tr1 = tr0 @ [Get_device, Get_max_work_group_size, Create_bufI vectorSize]
           in if local = 0 then Some (Inl Zero_work_group_size)
              else
                let global = calculateGlobalSize vectorSize local;
                    s0 = \<lparr> passes = 0, length' = vectorSize, bufR = bufR0, trace = tr1 \<rparr>
                in case pass_loop local global unary_op binary_op bufI s0 of
                     None \<Rightarrow> None
                   | Some s \<Rightarrow>
                       Some (Inr \<lparr> result = binary_op (bufR s ! 0) init,
                                   events = trace s @ [Wait_and_throw, Host_read 0] \<rparr>))"

subsection \<open>Notions the properties are stated with\<close>

text \<open>What a call returned to its caller, and its events; both are there only for a
  call that returned without a failure.\<close>

definition value_of :: "(error + 'b run) option \<Rightarrow> 'b option" where
  "value_of c = (case c of Some (Inr r) \<Rightarrow> Some (result r) | _ \<Rightarrow> None)"

definition events_of :: "(error + 'b run) option \<Rightarrow> event list" where
  "events_of c = (case c of Some (Inr r) \<Rightarrow> events r | _ \<Rightarrow> [])"

text \<open>The submissions of \<open>k\<close> consecutive passes, the first with pass counter \<open>p\<close> and
  logical length \<open>n\<close>: pass \<open>p + i\<close> has the logical length \<open>n div local ^ i\<close>.\<close>

definition submissions :: "nat \<Rightarrow> nat \<Rightarrow> nat \<Rightarrow> nat \<Rightarrow> nat \<Rightarrow> event list" where
  "submissions p n local global k =
     map (\<lambda>i. Submit (p + i) (n div local ^ i) local (max global local)) [0..<k]"

text \<open>The events of a call on a non-empty range before its first submission.\<close>

definition prologue :: "nat \<Rightarrow> event list" where
  "prologue n = [Get_queue, Create_bufR n, Get_device, Get_max_work_group_size, Create_bufI n]"

text \<open>The sequential reference the specification compares with: the left fold of a
  non-empty sequence, combined with \<open>init\<close> on the right.\<close>

fun fold_then_init :: "('b \<Rightarrow> 'b \<Rightarrow> 'b) \<Rightarrow> 'b list \<Rightarrow> 'b \<Rightarrow> 'b" where
  "fold_then_init binary_op [] init = init"
| "fold_then_init binary_op (y # ys) init = binary_op (foldl binary_op y ys) init"

text \<open>The fold of the entries of a scratch storage in the order of their indices; an
  excluded entry contributes nothing.\<close>

definition scratch_fold :: "('b \<Rightarrow> 'b \<Rightarrow> 'b) \<Rightarrow> 'b option list \<Rightarrow> 'b option" where
  "scratch_fold binary_op zs = foldr (combine_opt binary_op) zs None"

text \<open>The number of leading elements of a range of \<open>n\<close> elements that reach slot 0 of
  the partial-result buffer when the call makes \<open>P\<close> passes with the local size
  \<open>local\<close>: the last pass combines the first \<open>min local (n div local ^ (P - 1))\<close> slots,
  each of which stands for \<open>local ^ (P - 1)\<close> elements.\<close>

definition kept :: "nat \<Rightarrow> nat \<Rightarrow> nat \<Rightarrow> nat" where
  "kept local n P = min local (n div local ^ (P - 1)) * local ^ (P - 1)"



text \<open>An interaction with the device in the sense of the specification: the creation of
  a device buffer or the submission of a kernel.\<close>

definition device_interaction :: "event \<Rightarrow> bool" where
  "device_interaction e = (is_Create e \<or> is_Submit e)"

text \<open>\<open>awaited pending es\<close>: in \<open>es\<close> no kernel is submitted while an earlier submission
  has not been waited for; \<open>pending\<close> tells whether there is such a submission before
  \<open>es\<close>.\<close>

fun awaited :: "bool \<Rightarrow> event list \<Rightarrow> bool" where
  "awaited pending [] = True"
| "awaited pending (Submit p l loc g # es) = (\<not> pending \<and> awaited True es)"
| "awaited pending (Wait_and_throw # es) = awaited False es"
| "awaited pending (e # es) = awaited pending es"

section \<open>Properties\<close>

subsection \<open>The pass loop\<close>

lemma pass_body_simps:
  "passes (pass_body local global unary_op binary_op bufI s) = passes s + 1"
  "length' (pass_body local global unary_op binary_op bufI s) = length' s div local"
  "trace (pass_body local global unary_op binary_op bufI s) =
     trace s @ [Submit (passes s) (length' s) local (max global local)]"
  by (simp_all add: pass_body_def)

lemma submissions_Suc:
  "submissions p n local global (Suc k) =
     Submit p n local (max global local) # submissions (p + 1) (n div local) local global k"
  by (simp add: submissions_def map_upt_Suc div_mult2_eq del: upt_Suc)

lemma submissions_snoc:
  "submissions p n local global (Suc k) =
     submissions p n local global k @ [Submit (p + k) (n div local ^ k) local (max global local)]"
  by (simp add: submissions_def)

lemma funpow_pass_body:
  "passes ((pass_body local global unary_op binary_op bufI ^^ k) s) = passes s + k"
  "length' ((pass_body local global unary_op binary_op bufI ^^ k) s) = length' s div local ^ k"
  "trace ((pass_body local global unary_op binary_op bufI ^^ k) s)
     = trace s @ submissions (passes s) (length' s) local global k"
proof (induction k)
  case 0
  {
    case 1 show ?case by simp
  next
    case 2 show ?case by simp
  next
    case 3 show ?case by (simp add: submissions_def)
  }
next
  case (Suc k)
  {
    case 1 show ?case by (simp add: pass_body_simps Suc)
  next
    case 2 show ?case by (simp add: pass_body_simps Suc div_mult2_eq [symmetric] mult.commute)
  next
    case 3 show ?case by (simp add: pass_body_simps Suc submissions_snoc del: upt_Suc)
  }
qed

lemma pass_loop_shape:
  fixes unary_op :: "'a \<Rightarrow> 'b" and s :: "'b loop_state"
  assumes "pass_loop local global unary_op binary_op bufI s = Some s'"
  shows "\<exists>k. passes s' = passes s + Suc k \<and> length' s' = length' s div local ^ Suc k \<and> length' s' \<le> 1
           \<and> trace s' = trace s @ submissions (passes s) (length' s) local global (Suc k)"
proof -
  let ?P = "\<lambda>local global (unary_op :: 'a \<Rightarrow> 'b) (binary_op :: 'b \<Rightarrow> 'b \<Rightarrow> 'b)
      (bufI :: 'a list) (s :: 'b loop_state) (s' :: 'b loop_state).
    \<exists>k. passes s' = passes s + Suc k \<and> length' s' = length' s div local ^ Suc k \<and> length' s' \<le> 1
           \<and> trace s' = trace s @ submissions (passes s) (length' s) local global (Suc k)"
  show ?thesis
  proof (rule pass_loop.raw_induct [where P = ?P])
    show "pass_loop local global unary_op binary_op bufI s = Some s'"
      by (rule assms)
  next
    fix loop local global and unary_op :: "'a \<Rightarrow> 'b" and binary_op :: "'b \<Rightarrow> 'b \<Rightarrow> 'b"
      and bufI :: "'a list" and s s' :: "'b loop_state"
    let ?t = "pass_body local global unary_op binary_op bufI s"
    assume IH: "\<And>local global unary_op binary_op bufI s s'.
        loop local global unary_op binary_op bufI s = Some s' \<Longrightarrow>
        ?P local global unary_op binary_op bufI s s'"
      and step: "(if 1 < length' ?t then loop local global unary_op binary_op bufI ?t else Some ?t)
        = Some s'"
    show "?P local global unary_op binary_op bufI s s'"
    proof (cases "1 < length' ?t")
      case True
      with step have "loop local global unary_op binary_op bufI ?t = Some s'"
        by simp
      from IH [OF this] obtain k where k:
        "passes s' = passes ?t + Suc k" "length' s' = length' ?t div local ^ Suc k" "length' s' \<le> 1"
        "trace s' = trace ?t @ submissions (passes ?t) (length' ?t) local global (Suc k)"
        by blast
      have "trace s' = trace s @ submissions (passes s) (length' s) local global (Suc (Suc k))"
        using k(4) by (simp add: pass_body_simps submissions_Suc [of "passes s"])
      moreover have "length' s' = length' s div local ^ Suc (Suc k)"
        using k(2) by (simp add: pass_body_simps div_mult2_eq)
      ultimately show ?thesis
        using k(1,3) by (intro exI [of _ "Suc k"]) (simp add: pass_body_simps)
    next
      case False
      with step have "s' = ?t" by simp
      with False show ?thesis
        by (intro exI [of _ 0]) (simp add: pass_body_simps submissions_def)
    qed
  qed
qed

lemma pass_loop_terminates:
  assumes "2 \<le> local"
  shows "\<exists>s'. pass_loop local global unary_op binary_op bufI s = Some s'"
proof (induction "length' s" arbitrary: s rule: less_induct)
  case less
  let ?t = "pass_body local global unary_op binary_op bufI s"
  show ?case
  proof (cases "1 < length' ?t")
    case True
    then have "length' ?t < length' s"
      using assms by (cases "length' s = 0") (simp_all add: pass_body_simps)
    from less [OF this] show ?thesis
      using True by (subst pass_loop.simps) simp
  next
    case False
    then show ?thesis by (subst pass_loop.simps) simp
  qed
qed

lemma pass_loop_diverges_aux:
  fixes unary_op :: "'a \<Rightarrow> 'b" and s :: "'b loop_state"
  assumes "pass_loop local global unary_op binary_op bufI s = Some s'"
  shows "\<not> (local = 1 \<and> 1 < length' s)"
proof -
  let ?P = "\<lambda>(local :: nat) (global :: nat) (unary_op :: 'a \<Rightarrow> 'b)
      (binary_op :: 'b \<Rightarrow> 'b \<Rightarrow> 'b) (bufI :: 'a list) (s :: 'b loop_state)
      (s' :: 'b loop_state). \<not> (local = 1 \<and> 1 < length' s)"
  show ?thesis
  proof (rule pass_loop.raw_induct [where P = ?P])
    show "pass_loop local global unary_op binary_op bufI s = Some s'"
      by (rule assms)
  next
    fix loop and local global :: nat and unary_op :: "'a \<Rightarrow> 'b"
      and binary_op :: "'b \<Rightarrow> 'b \<Rightarrow> 'b" and bufI :: "'a list" and s s' :: "'b loop_state"
    let ?t = "pass_body local global unary_op binary_op bufI s"
    assume IH: "\<And>local global unary_op binary_op bufI s s'.
        loop local global unary_op binary_op bufI s = Some s' \<Longrightarrow>
        ?P local global unary_op binary_op bufI s s'"
      and step: "(if 1 < length' ?t then loop local global unary_op binary_op bufI ?t else Some ?t)
        = Some s'"
    show "?P local global unary_op binary_op bufI s s'"
    proof
      assume a: "local = 1 \<and> 1 < length' s"
      then have b: "1 < length' ?t"
        by (simp add: pass_body_simps)
      with step have "loop local global unary_op binary_op bufI ?t = Some s'"
        by simp
      from IH [OF this] a b show False by simp
    qed
  qed
qed

lemma pass_loop_diverges:
  "local = 1 \<Longrightarrow> 1 < length' s \<Longrightarrow> pass_loop local global unary_op binary_op bufI s = None"
  using pass_loop_diverges_aux [of local global unary_op binary_op bufI s]
  by (cases "pass_loop local global unary_op binary_op bufI s") auto

lemma pass_loop_last:
  fixes unary_op :: "'a \<Rightarrow> 'b" and s :: "'b loop_state"
  assumes "pass_loop local global unary_op binary_op bufI s = Some s'"
    and "I s"
    and "\<And>t. I t \<Longrightarrow> 1 < length' (pass_body local global unary_op binary_op bufI t)
           \<Longrightarrow> I (pass_body local global unary_op binary_op bufI t)"
  shows "\<exists>t. I t \<and> s' = pass_body local global unary_op binary_op bufI t \<and> length' s' \<le> 1"
proof -
  let ?P = "\<lambda>local global (unary_op :: 'a \<Rightarrow> 'b) (binary_op :: 'b \<Rightarrow> 'b \<Rightarrow> 'b)
      (bufI :: 'a list) (s :: 'b loop_state) (s' :: 'b loop_state).
    \<forall>I. I s \<and> (\<forall>t. I t \<and> 1 < length' (pass_body local global unary_op binary_op bufI t)
                 \<longrightarrow> I (pass_body local global unary_op binary_op bufI t))
      \<longrightarrow> (\<exists>t. I t \<and> s' = pass_body local global unary_op binary_op bufI t \<and> length' s' \<le> 1)"
  have "?P local global unary_op binary_op bufI s s'"
  proof (rule pass_loop.raw_induct [where P = ?P])
    show "pass_loop local global unary_op binary_op bufI s = Some s'"
      by (rule assms)
  next
    fix loop local global and unary_op :: "'a \<Rightarrow> 'b" and binary_op :: "'b \<Rightarrow> 'b \<Rightarrow> 'b"
      and bufI :: "'a list" and s s' :: "'b loop_state"
    let ?t = "pass_body local global unary_op binary_op bufI s"
    assume IH: "\<And>local global unary_op binary_op bufI s s'.
        loop local global unary_op binary_op bufI s = Some s' \<Longrightarrow>
        ?P local global unary_op binary_op bufI s s'"
      and step: "(if 1 < length' ?t then loop local global unary_op binary_op bufI ?t else Some ?t)
        = Some s'"
    show "?P local global unary_op binary_op bufI s s'"
    proof (cases "1 < length' ?t")
      case True
      with step have "loop local global unary_op binary_op bufI ?t = Some s'"
        by simp
      from IH [OF this] True show ?thesis by blast
    next
      case False
      with step have "s' = ?t" by simp
      with False show ?thesis by auto
    qed
  qed
  with assms(2,3) show ?thesis by blast
qed

lemma pass_loop_invariant:
  fixes unary_op :: "'a \<Rightarrow> 'b" and s :: "'b loop_state"
  assumes "pass_loop local global unary_op binary_op bufI s = Some s'"
    and "I s"
    and "\<And>t. I t \<Longrightarrow> I (pass_body local global unary_op binary_op bufI t)"
  shows "I s'"
  using pass_loop_last [where I = I, OF assms(1,2)] assms(3) by blast





subsection \<open>The events of a call\<close>

lemma transform_reduce_nonempty:
  fixes unary_op :: "'a \<Rightarrow> 'b"
  assumes "xs \<noteq> []"
    and "transform_reduce m uninit xs unary_op init binary_op = Some (Inr r)"
  shows "0 < min m (length xs) \<and>
    (\<exists>s. pass_loop (min m (length xs)) (calculateGlobalSize (length xs) (min m (length xs)))
           unary_op binary_op xs
           \<lparr> passes = 0, length' = length xs, bufR = map uninit [0..<length xs],
             trace = prologue (length xs) \<rparr> = Some s
        \<and> r = \<lparr> result = binary_op (bufR s ! 0) init,
                 events = trace s @ [Wait_and_throw, Host_read 0] \<rparr>)"
  using assms
  by (auto simp: transform_reduce_def Let_def prologue_def split: if_splits option.splits)

lemma transform_reduce_events:
  fixes unary_op :: "'a \<Rightarrow> 'b"
  assumes "xs \<noteq> []"
    and "transform_reduce m uninit xs unary_op init binary_op = Some (Inr r)"
  shows "\<exists>k. events r =
      prologue (length xs)
      @ submissions 0 (length xs) (min m (length xs))
          (calculateGlobalSize (length xs) (min m (length xs))) (Suc k)
      @ [Wait_and_throw, Host_read 0]"
proof -
  from transform_reduce_nonempty [OF assms] obtain s where
    s: "pass_loop (min m (length xs)) (calculateGlobalSize (length xs) (min m (length xs)))
           unary_op binary_op xs
           \<lparr> passes = 0, length' = length xs, bufR = map uninit [0..<length xs],
             trace = prologue (length xs) \<rparr> = Some s"
    and r: "r = \<lparr> result = binary_op (bufR s ! 0) init,
                 events = trace s @ [Wait_and_throw, Host_read 0] \<rparr>"
    by blast
  from pass_loop_shape [OF s] obtain k where
    "trace s = prologue (length xs) @ submissions 0 (length xs) (min m (length xs))
          (calculateGlobalSize (length xs) (min m (length xs))) (Suc k)"
    by auto
  with r show ?thesis by auto
qed

lemma filter_is_Submit_submissions:
  "filter is_Submit (submissions p n local global k) = submissions p n local global k"
  by (simp add: submissions_def filter_map comp_def)

lemma filter_is_Submit_prologue: "filter is_Submit (prologue n) = []"
  by (simp add: prologue_def)


lemma local_of_submissions:
  "list_all (\<lambda>e. local_of e = local) (submissions p n local global k)"
  by (simp add: submissions_def list_all_iff)

lemma filter_is_Submit_events:
  "filter is_Submit (prologue n @ submissions p l local global k @ [Wait_and_throw, Host_read 0])
     = submissions p l local global k"
  by (simp add: filter_is_Submit_submissions filter_is_Submit_prologue)

subsection \<open>The partial-result buffer keeps its length\<close>

lemma length_workgroup_write_to [simp]:
  "length (workgroup_write_to group_id scratch aR) = length aR"
  by (simp add: workgroup_write_to_def split: list.splits option.splits)

lemma length_fold_workgroup_write_to [simp]:
  "length (fold (\<lambda>group_id out. workgroup_write_to group_id (F group_id) out) gs out)
     = length out"
  by (induction gs arbitrary: out) simp_all

lemma length_parallel_for [simp]:
  "length (parallel_for p n local global unary_op binary_op aI aR) = length aR"
  by (simp add: parallel_for_def)

lemma pass_loop_length_bufR:
  fixes unary_op :: "'a \<Rightarrow> 'b" and s :: "'b loop_state"
  assumes "pass_loop local global unary_op binary_op bufI s = Some s'"
  shows "length (bufR s') = length (bufR s)"
  by (rule pass_loop_invariant [OF assms, where I = "\<lambda>t. length (bufR t) = length (bufR s)"])
     (simp_all add: pass_body_def)

subsection \<open>Padding in the tree combine\<close>

lemma length_tree_round: "length (tree_round binary_op zs) = (length zs + 1) div 2"
  by (induction binary_op zs rule: tree_round.induct) simp_all

lemma combine_opt_None_right [simp]: "combine_opt binary_op x None = x"
  by (cases x) simp_all

lemma tree_round_replicate_None:
  "tree_round binary_op (replicate k None) = replicate ((k + 1) div 2) None"
proof (induction k rule: less_induct)
  case (less k)
  show ?case
  proof (cases k)
    case 0
    then show ?thesis by simp
  next
    case (Suc j)
    show ?thesis
    proof (cases j)
      case 0
      with Suc show ?thesis by simp
    next
      case (Suc i)
      with \<open>k = Suc j\<close> less [of i] show ?thesis by simp
    qed
  qed
qed

lemma tree_round_padding:
  "tree_round binary_op (zs @ replicate k None) =
     tree_round binary_op zs
     @ replicate (if even (length zs) then (k + 1) div 2 else k div 2) None"
proof (induction zs rule: induct_list012)
  case 1
  show ?case by (simp add: tree_round_replicate_None)
next
  case (2 x)
  show ?case
    by (cases k) (simp_all add: tree_round_replicate_None)
next
  case (3 x y zs)
  then show ?case by simp
qed

lemma combine_threads_short: "length zs \<le> 1 \<Longrightarrow> combine_threads binary_op zs = zs"
  by (subst combine_threads.simps) simp

lemma combine_threads_tree_round:
  "combine_threads binary_op (tree_round binary_op zs) = combine_threads binary_op zs"
proof (cases "length zs \<le> 1")
  case True
  then have "tree_round binary_op zs = zs"
    by (cases zs) auto
  then show ?thesis by simp
next
  case False
  then show ?thesis by (subst (2) combine_threads.simps) simp
qed

lemma workgroup_write_to_padding:
  "workgroup_write_to group_id (combine_threads binary_op (zs @ replicate k None)) out =
   workgroup_write_to group_id (combine_threads binary_op zs) out"
proof (induction "length zs + k" arbitrary: zs k rule: less_induct)
  case less
  show ?case
  proof (cases "k = 0 \<or> length zs + k \<le> 1")
    case True
    then consider "k = 0" | "zs = []" "k = 1" by (cases zs; cases k) auto
    then show ?thesis
      by cases (simp_all add: combine_threads_short workgroup_write_to_def)
  next
    case False
    define k' where "k' = (if even (length zs) then (k + 1) div 2 else k div 2)"
    have smaller: "length (tree_round binary_op zs) + k' < length zs + k"
      using False unfolding k'_def length_tree_round by (cases "even (length zs)") presburger+
    have "combine_threads binary_op (zs @ replicate k None) =
        combine_threads binary_op (tree_round binary_op zs @ replicate k' None)"
      using False by (subst combine_threads.simps) (simp add: tree_round_padding k'_def)
    then show ?thesis
      using less [OF smaller] by (simp add: combine_threads_tree_round)
  qed
qed


lemma workgroup_scratch_padding:
  "workgroup_scratch p n local unary_op aI aR group_id =
     map (\<lambda>globalid. Some (if p = 0 then unary_op (aI ! globalid) else aR ! globalid))
       [group_id * local..<min (group_id * local + local) n]
     @ replicate (local - (min (group_id * local + local) n - group_id * local)) None"
  by (auto simp: list_eq_iff_nth_eq nth_append workgroup_scratch_def workitem_ingest_def
      workitem_get_from_op_def workitem_get_from_def)

subsection \<open>The tree combine of an associative operation is a fold\<close>

lemma combine_opt_assoc:
  assumes "\<And>a b c. binary_op (binary_op a b) c = binary_op a (binary_op b c)"
  shows "combine_opt binary_op (combine_opt binary_op x y) z =
         combine_opt binary_op x (combine_opt binary_op y z)"
  by (cases x; cases y; cases z) (simp_all add: assms)

lemma scratch_fold_simps [simp]:
  "scratch_fold binary_op [] = None"
  "scratch_fold binary_op (z # zs) = combine_opt binary_op z (scratch_fold binary_op zs)"
  by (simp_all add: scratch_fold_def)

lemma scratch_fold_append:
  assumes "\<And>a b c. binary_op (binary_op a b) c = binary_op a (binary_op b c)"
  shows "scratch_fold binary_op (ys @ zs) =
         combine_opt binary_op (scratch_fold binary_op ys) (scratch_fold binary_op zs)"
  by (induction ys) (simp_all add: combine_opt_assoc [OF assms])

lemma scratch_fold_replicate_None [simp]: "scratch_fold binary_op (replicate k None) = None"
  by (induction k) simp_all

lemma scratch_fold_tree_round:
  assumes "\<And>a b c. binary_op (binary_op a b) c = binary_op a (binary_op b c)"
  shows "scratch_fold binary_op (tree_round binary_op zs) = scratch_fold binary_op zs"
  by (induction zs rule: induct_list012) (simp_all add: combine_opt_assoc [OF assms])

lemma combine_threads_fold:
  assumes "\<And>a b c. binary_op (binary_op a b) c = binary_op a (binary_op b c)"
    and "zs \<noteq> []"
  shows "combine_threads binary_op zs = [scratch_fold binary_op zs]"
  using assms
proof (induction binary_op zs rule: combine_threads.induct)
  case (1 f scratch)
  note assoc = "1.prems"(1)
  show ?case
  proof (cases "length scratch \<le> 1")
    case True
    with "1.prems"(2) obtain z where "scratch = [z]"
      by (cases scratch) auto
    then show ?thesis by (simp add: combine_threads_short)
  next
    case False
    then have "length (tree_round f scratch) \<noteq> 0"
      by (simp add: length_tree_round)
    then have "tree_round f scratch \<noteq> []"
      by simp
    with "1.IH" False assoc have "combine_threads f (tree_round f scratch)
        = [scratch_fold f (tree_round f scratch)]"
      by simp
    then show ?thesis
      by (simp add: combine_threads_tree_round scratch_fold_tree_round [OF assoc])
  qed
qed

lemma foldl_assoc:
  assumes "\<And>a b c. binary_op (binary_op a b) c = binary_op a (binary_op b c)"
  shows "binary_op y (foldl binary_op z zs) = foldl binary_op (binary_op y z) zs"
  by (induction zs arbitrary: z) (simp_all add: assms)

lemma scratch_fold_map_Some:
  assumes "\<And>a b c. binary_op (binary_op a b) c = binary_op a (binary_op b c)"
  shows "scratch_fold binary_op (map Some (y # ys)) = Some (foldl binary_op y ys)"
proof (induction ys arbitrary: y)
  case Nil
  show ?case by simp
next
  case (Cons z zs)
  have "scratch_fold binary_op (map Some (y # z # zs))
      = combine_opt binary_op (Some y) (scratch_fold binary_op (map Some (z # zs)))"
    by simp
  also have "\<dots> = Some (binary_op y (foldl binary_op z zs))"
    by (simp only: Cons combine_opt.simps)
  finally show ?case
    by (simp add: foldl_assoc [OF assms])
qed

lemma scratch_fold_concat:
  assumes "\<And>a b c. binary_op (binary_op a b) c = binary_op a (binary_op b c)"
  shows "scratch_fold binary_op (map (\<lambda>j. scratch_fold binary_op (F j)) js)
       = scratch_fold binary_op (concat (map F js))"
  by (induction js) (simp_all add: scratch_fold_append [OF assms])

lemma workgroup_write_to_nth:
  "i < length out \<Longrightarrow>
   workgroup_write_to group_id scratch out ! i
     = (if i = group_id then (case scratch of Some v # rest \<Rightarrow> v | _ \<Rightarrow> out ! i)
        else out ! i)"
  by (simp add: workgroup_write_to_def split: list.splits option.splits)

lemma fold_workgroup_write_to_nth:
  assumes "i < length aR"
  shows "fold (\<lambda>group_id out. workgroup_write_to group_id (F group_id) out) [0..<G] aR ! i
       = (if i < G then (case F i of Some v # rest \<Rightarrow> v | _ \<Rightarrow> aR ! i) else aR ! i)"
proof (induction G)
  case 0
  show ?case by simp
next
  case (Suc G)
  let ?B = "fold (\<lambda>group_id out. workgroup_write_to group_id (F group_id) out) [0..<G] aR"
  have length': "i < length ?B" using assms by simp
  have "fold (\<lambda>group_id out. workgroup_write_to group_id (F group_id) out) [0..<Suc G] aR ! i
      = workgroup_write_to G (F G) ?B ! i"
    by simp
  also have "\<dots> = (if i = G then (case F G of Some v # rest \<Rightarrow> v | _ \<Rightarrow> ?B ! i) else ?B ! i)"
    by (rule workgroup_write_to_nth [OF length'])
  also have "\<dots> = (if i < Suc G then (case F i of Some v # rest \<Rightarrow> v | _ \<Rightarrow> aR ! i)
      else aR ! i)"
    unfolding Suc by (auto simp: less_Suc_eq)
  finally show ?case .
qed

lemma workgroup_run_fold:
  assumes "\<And>a b c. binary_op (binary_op a b) c = binary_op a (binary_op b c)"
    and "0 < local"
  shows "workgroup_run p n local unary_op binary_op aI aR group_id
       = [scratch_fold binary_op (workgroup_scratch p n local unary_op aI aR group_id)]"
proof -
  have "workgroup_scratch p n local unary_op aI aR group_id \<noteq> []"
    using assms(2) by (simp add: workgroup_scratch_def)
  then show ?thesis
    unfolding workgroup_run_def by (rule combine_threads_fold [OF assms(1)])
qed

lemma parallel_for_nth:
  assumes "\<And>a b c. binary_op (binary_op a b) c = binary_op a (binary_op b c)"
    and "0 < local" and "i < length aR" and "i < max global local div local"
  shows "parallel_for p n local global unary_op binary_op aI aR ! i
       = (case scratch_fold binary_op (workgroup_scratch p n local unary_op aI aR i) of
            Some v \<Rightarrow> v | None \<Rightarrow> aR ! i)"
  using assms(3,4)
  by (simp add: parallel_for_def fold_workgroup_write_to_nth
      workgroup_run_fold [OF assms(1,2)] split: option.splits)

subsection \<open>What a pass leaves in the partial-result buffer\<close>

lemma concat_slices:
  "concat (map (\<lambda>j. take w (drop (j * w) vals)) [b..<e]) = take ((e - b) * w) (drop (b * w) vals)"
proof (induction e)
  case 0
  show ?case by simp
next
  case (Suc e)
  show ?case
  proof (cases "b \<le> e")
    case True
    then have eq1: "(Suc e - b) * w = (e - b) * w + w" and eq2: "(e - b) * w + b * w = e * w"
      by (simp_all add: Suc_diff_le flip: add_mult_distrib)
    have "take ((Suc e - b) * w) (drop (b * w) vals)
        = take ((e - b) * w) (drop (b * w) vals)
          @ take w (drop ((e - b) * w) (drop (b * w) vals))"
      unfolding eq1 by (rule take_add)
    also have "drop ((e - b) * w) (drop (b * w) vals) = drop (e * w) vals"
      by (simp only: drop_drop eq2)
    finally show ?thesis
      using True Suc by simp
  next
    case False
    then show ?thesis by simp
  qed
qed

lemma scratch_fold_padding:
  "scratch_fold binary_op (zs @ replicate k None) = scratch_fold binary_op zs"
  by (induction zs) simp_all

lemma workgroup_scratch_fold:
  fixes unary_op :: "'a \<Rightarrow> 'b"
  assumes assoc: "\<And>a b c. binary_op (binary_op a b) c = binary_op a (binary_op b c)"
    and ingest: "\<And>globalid. globalid < n \<Longrightarrow> workitem_ingest p n unary_op aI aR globalid
        = scratch_fold binary_op (map Some (take w (drop (globalid * w) vals)))"
  shows "scratch_fold binary_op (workgroup_scratch p n local unary_op aI aR group_id)
       = scratch_fold binary_op (map Some
           (take ((min (group_id * local + local) n - group_id * local) * w)
              (drop (group_id * local * w) vals)))"
proof -
  let ?range = "[group_id * local..<min (group_id * local + local) n]"
  have "map (\<lambda>globalid. Some (if p = 0 then unary_op (aI ! globalid) else aR ! globalid)) ?range
      = map (\<lambda>globalid. scratch_fold binary_op (map Some (take w (drop (globalid * w) vals)))) ?range"
  proof (rule map_cong [OF refl])
    fix globalid assume "globalid \<in> set ?range"
    then have "globalid < n" by simp
    from ingest [OF this, symmetric] \<open>globalid < n\<close>
    show "Some (if p = 0 then unary_op (aI ! globalid) else aR ! globalid)
        = scratch_fold binary_op (map Some (take w (drop (globalid * w) vals)))"
      by (simp add: workitem_ingest_def workitem_get_from_op_def workitem_get_from_def)
  qed
  then have "scratch_fold binary_op (workgroup_scratch p n local unary_op aI aR group_id)
      = scratch_fold binary_op
          (map (\<lambda>globalid. scratch_fold binary_op (map Some (take w (drop (globalid * w) vals)))) ?range)"
    by (simp only: workgroup_scratch_padding scratch_fold_padding)
  also have "\<dots> = scratch_fold binary_op
      (map Some (concat (map (\<lambda>globalid. take w (drop (globalid * w) vals)) ?range)))"
    by (simp only: scratch_fold_concat [OF assoc] map_concat map_map comp_def)
  finally show ?thesis
    by (simp only: concat_slices)
qed

lemma scratch_fold_map_Some_nonempty:
  assumes "\<And>a b c. binary_op (binary_op a b) c = binary_op a (binary_op b c)"
    and "ys \<noteq> []"
  shows "scratch_fold binary_op (map Some ys) = Some (foldl binary_op (hd ys) (tl ys))"
  using assms(2) scratch_fold_map_Some [OF assms(1), of "hd ys" "tl ys"] by simp

lemma parallel_for_slot:
  fixes unary_op :: "'a \<Rightarrow> 'b"
  assumes assoc: "\<And>a b c. binary_op (binary_op a b) c = binary_op a (binary_op b c)"
    and ingest: "\<And>globalid. globalid < n \<Longrightarrow> workitem_ingest p n unary_op aI aR globalid
        = scratch_fold binary_op (map Some (take w (drop (globalid * w) vals)))"
    and "0 < local" and "0 < w" and "n * w \<le> length vals"
    and "group_id * local < n" and "group_id < length aR"
    and "group_id < max global local div local"
  shows "Some (parallel_for p n local global unary_op binary_op aI aR ! group_id)
       = scratch_fold binary_op (map Some
           (take ((min (group_id * local + local) n - group_id * local) * w)
              (drop (group_id * local * w) vals)))"
proof -
  let ?slice = "take ((min (group_id * local + local) n - group_id * local) * w)
              (drop (group_id * local * w) vals)"
  have "group_id * local * w < n * w"
    using assms(4,6) by (intro mult_less_mono1)
  then have "group_id * local * w < length vals"
    using assms(5) by (rule less_le_trans)
  moreover note assms(4)
  ultimately have "?slice \<noteq> []"
    using assms(3,4,6) by (auto simp: min_def)
  then have "scratch_fold binary_op (map Some ?slice) \<noteq> None"
    by (simp add: scratch_fold_map_Some_nonempty [OF assoc])
  moreover have "scratch_fold binary_op (workgroup_scratch p n local unary_op aI aR group_id)
      = scratch_fold binary_op (map Some ?slice)"
    by (rule workgroup_scratch_fold [OF assoc ingest])
  ultimately show ?thesis
    unfolding parallel_for_nth [OF assoc assms(3,7,8)]
    by (auto split: option.splits)
qed

lemma groups_cover:
  assumes "0 < local" and "l \<le> n"
  shows "l div local \<le> max (calculateGlobalSize n local) local div local"
proof -
  have "l div local \<le> n div local"
    using assms(2) by (rule div_le_mono)
  also have "\<dots> \<le> (n + local - 1) div local"
    using assms(1) by (intro div_le_mono) simp
  also have "\<dots> = calculateGlobalSize n local div local"
    using assms(1) by (simp add: calculateGlobalSize_def)
  also have "\<dots> \<le> max (calculateGlobalSize n local) local div local"
    by (rule div_le_mono) simp
  finally show ?thesis .
qed

lemma pass_loop_slot0:
  fixes unary_op :: "'a \<Rightarrow> 'b"
  assumes assoc: "\<And>a b c. binary_op (binary_op a b) c = binary_op a (binary_op b c)"
    and "xs \<noteq> []" and "0 < local"
    and loop: "pass_loop local (calculateGlobalSize (length xs) local) unary_op binary_op xs
        \<lparr> passes = 0, length' = length xs, bufR = aR, trace = tr \<rparr> = Some s"
    and "length aR = length xs"
  shows "Some (bufR s ! 0)
       = scratch_fold binary_op
           (map Some (take (kept local (length xs) (passes s)) (map unary_op xs)))"
proof -
  define n where "n = length xs"
  define global where "global = calculateGlobalSize n local"
  define vals where "vals = map unary_op xs"
  define Inv where "Inv t \<longleftrightarrow>
      0 < length' t \<and> length' t = n div local ^ passes t \<and> length (bufR t) = n
      \<and> (\<forall>globalid<length' t. workitem_ingest (passes t) (length' t) unary_op xs (bufR t) globalid
            = scratch_fold binary_op
                (map Some (take (local ^ passes t) (drop (globalid * local ^ passes t) vals))))"
    for t :: "'b loop_state"
  let ?s0 = "\<lparr> passes = 0, length' = length xs, bufR = aR, trace = tr \<rparr>"
  have n: "0 < n" "length vals = n"
    using assms(2) by (simp_all add: n_def vals_def)
  have slices: "n div w * w \<le> length vals" for w
    using n(2) by simp
  have init: "Inv ?s0"
  proof -
    have "workitem_ingest 0 n unary_op xs aR globalid
        = scratch_fold binary_op (map Some (take 1 (drop globalid vals)))" if "globalid < n" for globalid
    proof -
      from that have "drop globalid vals = vals ! globalid # drop (Suc globalid) vals"
        using n(2) by (simp add: Cons_nth_drop_Suc)
      with that show ?thesis
        by (simp add: workitem_ingest_def workitem_get_from_op_def vals_def n_def)
    qed
    with n assms(5) show ?thesis
      by (simp add: Inv_def n_def)
  qed
  have step: "Inv (pass_body local global unary_op binary_op xs t)"
    if t: "Inv t" and more: "1 < length' (pass_body local global unary_op binary_op xs t)" for t
  proof -
    let ?w = "local ^ passes t"
    let ?t' = "pass_body local global unary_op binary_op xs t"
    from t have length': "length' t = n div ?w" and lenR: "length (bufR t) = n"
      and ingest: "\<And>globalid. globalid < length' t \<Longrightarrow>
        workitem_ingest (passes t) (length' t) unary_op xs (bufR t) globalid
          = scratch_fold binary_op (map Some (take ?w (drop (globalid * ?w) vals)))"
      unfolding Inv_def by blast+
    have w: "0 < ?w" using assms(3) by simp
    have length'': "length' ?t' = n div local ^ passes ?t'"
      unfolding pass_body_simps length' by (simp add: div_mult2_eq [symmetric] mult.commute)
    have "workitem_ingest (passes ?t') (length' ?t') unary_op xs (bufR ?t') globalid
        = scratch_fold binary_op
            (map Some (take (local ^ passes ?t') (drop (globalid * local ^ passes ?t') vals)))"
      if globalid: "globalid < length' ?t'" for globalid
    proof -
      from globalid have g: "globalid < length' t div local"
        by (simp add: pass_body_simps)
      then have "Suc globalid \<le> length' t div local"
        by simp
      then have "Suc globalid * local \<le> length' t div local * local"
        by (rule mult_le_mono1)
      also have "\<dots> \<le> length' t"
        by simp
      finally have full: "globalid * local + local \<le> length' t"
        by (simp add: add.commute)
      have "length' t \<le> n" by (simp add: length')
      have "Some (parallel_for (passes t) (length' t) local global unary_op binary_op xs (bufR t) ! globalid)
          = scratch_fold binary_op (map Some
              (take ((min (globalid * local + local) (length' t) - globalid * local) * ?w)
                 (drop (globalid * local * ?w) vals)))"
      proof (rule parallel_for_slot [OF assoc ingest assms(3) w])
        show "length' t * ?w \<le> length vals"
          unfolding length' by (rule slices)
        show "globalid * local < length' t"
          using full assms(3) by simp
        show "globalid < length (bufR t)"
          using g \<open>length' t \<le> n\<close> lenR
          by (meson div_le_dividend less_le_trans)
        show "globalid < max global local div local"
          using g groups_cover [OF assms(3) \<open>length' t \<le> n\<close>] unfolding global_def
          by (rule less_le_trans)
      qed
      moreover have "(min (globalid * local + local) (length' t) - globalid * local) * ?w = local ^ passes ?t'"
        using full by (simp add: pass_body_simps min_absorb1)
      moreover have "globalid * local * ?w = globalid * local ^ passes ?t'"
        by (simp add: pass_body_simps mult.assoc)
      ultimately show ?thesis
        using globalid by (simp add: workitem_ingest_def workitem_get_from_def pass_body_simps
            pass_body_def)
    qed
    with more length'' lenR show ?thesis
      by (simp add: Inv_def pass_body_def)
  qed
  have "pass_loop local global unary_op binary_op xs ?s0 = Some s"
    using loop by (simp add: global_def n_def)
  from pass_loop_last [where I = Inv, OF this init step]
  obtain t where t: "Inv t" and s: "s = pass_body local global unary_op binary_op xs t"
    by blast
  let ?w = "local ^ passes t"
  from t have pos: "0 < length' t" and length': "length' t = n div ?w" and lenR: "length (bufR t) = n"
    and ingest: "\<And>globalid. globalid < length' t \<Longrightarrow>
      workitem_ingest (passes t) (length' t) unary_op xs (bufR t) globalid
        = scratch_fold binary_op (map Some (take ?w (drop (globalid * ?w) vals)))"
    unfolding Inv_def by blast+
  have "Some (parallel_for (passes t) (length' t) local global unary_op binary_op xs (bufR t) ! 0)
      = scratch_fold binary_op (map Some
          (take ((min (0 * local + local) (length' t) - 0 * local) * ?w) (drop (0 * local * ?w) vals)))"
  proof (rule parallel_for_slot [OF assoc ingest assms(3)])
    show "0 < ?w" using assms(3) by simp
    show "length' t * ?w \<le> length vals"
      unfolding length' by (rule slices)
    show "0 * local < length' t" using pos by simp
    show "0 < length (bufR t)" using lenR n by simp
    show "0 < max global local div local"
      using assms(3) by (simp add: div_greater_zero_iff)
  qed
  then show ?thesis
    by (simp add: s pass_body_def kept_def length' n_def vals_def)
qed

subsection \<open>What a call returns\<close>

lemma transform_reduce_passes:
  fixes unary_op :: "'a \<Rightarrow> 'b"
  assumes "xs \<noteq> []"
    and "transform_reduce m uninit xs unary_op init binary_op = Some (Inr r)"
  shows "0 < min m (length xs) \<and>
    (\<exists>s. pass_loop (min m (length xs)) (calculateGlobalSize (length xs) (min m (length xs)))
           unary_op binary_op xs
           \<lparr> passes = 0, length' = length xs, bufR = map uninit [0..<length xs],
             trace = prologue (length xs) \<rparr> = Some s
        \<and> result r = binary_op (bufR s ! 0) init
        \<and> length (filter is_Submit (events r)) = passes s)"
proof -
  from transform_reduce_nonempty [OF assms] obtain s where
    s: "pass_loop (min m (length xs)) (calculateGlobalSize (length xs) (min m (length xs)))
           unary_op binary_op xs
           \<lparr> passes = 0, length' = length xs, bufR = map uninit [0..<length xs],
             trace = prologue (length xs) \<rparr> = Some s"
    and r: "r = \<lparr> result = binary_op (bufR s ! 0) init,
                 events = trace s @ [Wait_and_throw, Host_read 0] \<rparr>"
    and pos: "0 < min m (length xs)"
    by blast
  from pass_loop_shape [OF s] obtain k where
    "passes s = Suc k"
    "trace s = prologue (length xs) @ submissions 0 (length xs) (min m (length xs))
          (calculateGlobalSize (length xs) (min m (length xs))) (Suc k)"
    by auto
  then have "length (filter is_Submit (events r)) = passes s"
    unfolding r by (simp add: filter_is_Submit_submissions filter_is_Submit_prologue
        submissions_def del: upt_Suc)
  with s r pos show ?thesis by auto
qed

text \<open>
  With an associative binary operation, a call that makes \<open>P\<close> passes returns the fold of
  the first \<open>kept local n P\<close> transformed elements, combined with \<open>init\<close> on the right.
  Whatever lies behind this prefix never reaches the result.
\<close>

lemma transform_reduce_folds_prefix:
  fixes unary_op :: "'a \<Rightarrow> 'b"
  assumes assoc: "\<And>a b c. binary_op (binary_op a b) c = binary_op a (binary_op b c)"
    and ne: "xs \<noteq> []"
    and run: "transform_reduce m uninit xs unary_op init binary_op = Some (Inr r)"
  shows "0 < kept (min m (length xs)) (length xs) (length (filter is_Submit (events r)))
     \<and> result r =
       fold_then_init binary_op
         (map unary_op
            (take (kept (min m (length xs)) (length xs) (length (filter is_Submit (events r))))
               xs))
         init"
proof -
  let ?local = "min m (length xs)"
  from transform_reduce_passes [OF ne run] obtain s where
    pos: "0 < ?local"
    and s: "pass_loop ?local (calculateGlobalSize (length xs) ?local) unary_op binary_op xs
           \<lparr> passes = 0, length' = length xs, bufR = map uninit [0..<length xs],
             trace = prologue (length xs) \<rparr> = Some s"
    and r: "result r = binary_op (bufR s ! 0) init"
    and P: "length (filter is_Submit (events r)) = passes s"
    by blast
  let ?K = "kept ?local (length xs) (passes s)"
  have slot0: "Some (bufR s ! 0)
      = scratch_fold binary_op (map Some (take ?K (map unary_op xs)))"
    by (rule pass_loop_slot0 [OF assoc ne pos s]) simp
  have K: "0 < ?K"
  proof (rule ccontr)
    assume "\<not> 0 < ?K"
    then have "take ?K (map unary_op xs) = []" by simp
    with slot0 show False by simp
  qed
  with ne have "take ?K (map unary_op xs) \<noteq> []" by simp
  then obtain y ys where ys: "take ?K (map unary_op xs) = y # ys"
    by (cases "take ?K (map unary_op xs)") auto
  with slot0 have "bufR s ! 0 = foldl binary_op y ys"
    by (simp only: scratch_fold_map_Some [OF assoc]) simp
  with ys r K show ?thesis
    by (simp add: P take_map)
qed

text \<open>
  When one work-group covers the range, nothing is lost: the call makes one pass and
  returns the sequential fold of all transformed elements, combined with \<open>init\<close>.
\<close>

lemma transform_reduce_single_group:
  fixes unary_op :: "'a \<Rightarrow> 'b"
  assumes assoc: "\<And>a b c. binary_op (binary_op a b) c = binary_op a (binary_op b c)"
    and ne: "xs \<noteq> []" and fits: "length xs \<le> m"
  shows "\<exists>ev. transform_reduce m uninit xs unary_op init binary_op
       = Some (Inr \<lparr> result = fold_then_init binary_op (map unary_op xs) init, events = ev \<rparr>)"
proof -
  let ?n = "length xs"
  let ?s0 = "\<lparr> passes = 0, length' = ?n, bufR = map uninit [0..<?n], trace = prologue ?n \<rparr>"
  let ?s1 = "pass_body ?n (calculateGlobalSize ?n ?n) unary_op binary_op xs ?s0"
  from ne have n: "0 < ?n" by simp
  from fits have local: "min m ?n = ?n" by simp
  have loop: "pass_loop ?n (calculateGlobalSize ?n ?n) unary_op binary_op xs ?s0 = Some ?s1"
    using n by (subst pass_loop.simps) (simp add: pass_body_simps)
  then have run: "transform_reduce m uninit xs unary_op init binary_op
      = Some (Inr \<lparr> result = binary_op (bufR ?s1 ! 0) init,
                     events = trace ?s1 @ [Wait_and_throw, Host_read 0] \<rparr>)"
    using n by (simp add: transform_reduce_def local Let_def prologue_def)
  have "length (filter is_Submit (trace ?s1 @ [Wait_and_throw, Host_read 0])) = 1"
    by (simp add: pass_body_simps filter_is_Submit_prologue)
  moreover have "kept ?n ?n 1 = ?n"
    by (simp add: kept_def)
  ultimately show ?thesis
    using transform_reduce_folds_prefix [OF assoc ne run] run
    by (simp add: local)
qed

text \<open>
  A call on a non-empty range returns exactly when the device allows work-groups of at
  least 2 work-items or the range has one element.
\<close>

lemma transform_reduce_returns_iff:
  fixes unary_op :: "'a \<Rightarrow> 'b"
  assumes "xs \<noteq> []" and "0 < m"
  shows "(\<exists>r. transform_reduce m uninit xs unary_op init binary_op = Some (Inr r))
     \<longleftrightarrow> 2 \<le> m \<or> length xs = 1"
proof -
  let ?n = "length xs"
  let ?local = "min m ?n"
  let ?global = "calculateGlobalSize ?n ?local"
  let ?s0 = "\<lparr> passes = 0, length' = ?n, bufR = map uninit [0..<?n], trace = prologue ?n \<rparr>"
  have run: "transform_reduce m uninit xs unary_op init binary_op
      = (case pass_loop ?local ?global unary_op binary_op xs ?s0 of
           None \<Rightarrow> None
         | Some s \<Rightarrow> Some (Inr \<lparr> result = binary_op (bufR s ! 0) init,
                     events = trace s @ [Wait_and_throw, Host_read 0] \<rparr>))"
  proof -
    from assms have "(?local = 0) = False" by (simp add: min_def)
    with assms(1) show ?thesis
      unfolding transform_reduce_def Let_def prologue_def by (simp only:) simp
  qed
  show ?thesis
  proof (cases "2 \<le> ?local")
    case True
    from pass_loop_terminates [OF this] obtain s where
      "pass_loop ?local ?global unary_op binary_op xs ?s0 = Some s" by blast
    with True run show ?thesis by simp
  next
    case False
    moreover from assms have "0 < ?local" by simp
    ultimately have one: "?local = 1" by linarith
    show ?thesis
    proof (cases "?n = 1")
      case True
      then have "pass_loop ?local ?global unary_op binary_op xs ?s0
          = Some (pass_body ?local ?global unary_op binary_op xs ?s0)"
        using one by (subst pass_loop.simps) (simp add: pass_body_simps)
      with True run show ?thesis by simp
    next
      case False
      with assms(1) have "1 < ?n" by (cases xs) auto
      then have "pass_loop ?local ?global unary_op binary_op xs ?s0 = None"
        using one by (intro pass_loop_diverges) simp_all
      moreover from one False \<open>1 < ?n\<close> have "\<not> 2 \<le> m" by (simp add: min_def split: if_splits)
      ultimately show ?thesis using run False by simp
    qed
  qed
qed

subsection \<open>Elements lost by the truncating division\<close>

text \<open>
  Claim C1 says that with the identity as unary operation and an associative binary
  operation the call returns the sequential fold of the sequence combined with \<open>init\<close>,
  whatever the relation of the length to the local size. On a device whose largest
  work-group has 2 work-items, the sum of \<open>[1, 2, 3]\<close> with \<open>init = 0\<close> comes out as 3:
  pass 0 leaves \<open>1 + 2\<close> in slot 0 and \<open>3\<close> in slot 1, the logical length becomes
  \<open>3 div 2 = 1\<close>, the loop ends and only slot 0 is read. The sequential fold is 6.
  This holds whatever the partial-result buffer held when it was constructed.
\<close>

theorem transform_reduce_drops_remainder:
  "value_of (transform_reduce 2 uninit [1, 2, 3 :: nat] id 0 (+)) = Some 3
   \<and> fold_then_init (+) (map id [1, 2, 3 :: nat]) 0 = 6"
  by code_simp

text \<open>
  Claim C4 says that for an associative and commutative binary operation the result is the
  same for every local size. The sum of \<open>[1, 2, 3]\<close> with \<open>init = 0\<close> is 3 on a device
  whose largest work-group has 2 work-items and 6 on one whose largest work-group has 3.
\<close>

theorem result_depends_on_work_group_size:
  "value_of (transform_reduce 2 uninit [1, 2, 3 :: nat] id 0 (+)) = Some 3
   \<and> value_of (transform_reduce 3 uninit [1, 2, 3 :: nat] id 0 (+)) = Some 6"
  by code_simp

subsection \<open>A loop that does not end\<close>

text \<open>
  Claim C5 says that the pass loop ends for every positive length and every local size
  of at least 1. With a local size of 1 the division leaves the logical length as it is:
  on a device whose largest work-group has 1 work-item, a call on a range of two elements
  never returns, whatever the elements and the operations.
\<close>

theorem pass_loop_runs_forever:
  "transform_reduce 1 uninit [a, b] unary_op init binary_op = None"
  by (simp add: transform_reduce_def pass_loop_diverges)

subsection \<open>The empty range\<close>

text \<open>
  Claim C2 says that a call on an empty range returns \<open>init\<close> and has created no device
  buffer and submitted no kernel before. As stated this fails: the partial-result buffer
  is constructed (with no elements) before the length is tested.
\<close>

theorem empty_range_creates_bufR:
  "\<not> (value_of (transform_reduce 4 id ([] :: nat list) Suc (2 :: nat) (*)) = Some 2
       \<and> filter device_interaction
            (events_of (transform_reduce 4 id ([] :: nat list) Suc (2 :: nat) (*))) = [])"
  by code_simp

text \<open>
  Claim C2, amended: for every unary operation, binary operation and \<open>init\<close>, a call on
  an empty range returns exactly \<open>init\<close>, and all it has asked of the runtime before is
  the queue of the policy and the construction of the partial-result buffer of length 0:
  no input buffer, no kernel submission, no wait.
\<close>

theorem empty_range_returns_init:
  "transform_reduce m uninit [] unary_op init binary_op
     = Some (Inr \<lparr> result = init, events = [Get_queue, Create_bufR 0] \<rparr>)"
  by (simp add: transform_reduce_def)

subsection \<open>Waiting for the device\<close>

text \<open>
  Claim C3 says that the host waits for each pass to complete before it submits the next.
  As stated this fails: with 4 elements and a local size of 2 the two passes are submitted
  one after the other with no wait between them.
\<close>

theorem submissions_not_awaited:
  "\<not> awaited False (events_of (transform_reduce 2 id [1, 2, 3, 4 :: nat] id 0 (+)))"
  by code_simp

text \<open>
  Claim C3, amended: the host does not wait between the submissions. After the creation
  of the input buffer the events of a call on a non-empty range are the submissions of
  all its passes, then one \<^verbatim>\<open>wait_and_throw\<close>, then the read of the result on
  the host; the order of the passes is left to the queue.
\<close>

theorem single_wait_after_all_submissions:
  fixes unary_op :: "'a \<Rightarrow> 'b"
  assumes "xs \<noteq> []"
    and "transform_reduce m uninit xs unary_op init binary_op = Some (Inr r)"
  shows "\<exists>subs. events r = prologue (length xs) @ subs @ [Wait_and_throw, Host_read 0]
           \<and> subs \<noteq> [] \<and> list_all is_Submit subs"
proof -
  from transform_reduce_events [OF assms] obtain k where
    "events r = prologue (length xs)
      @ submissions 0 (length xs) (min m (length xs))
          (calculateGlobalSize (length xs) (min m (length xs))) (Suc k)
      @ [Wait_and_throw, Host_read 0]" ..
  moreover have "list_all is_Submit (submissions p n l g j)" for p n l g j
    by (simp add: submissions_def list_all_iff)
  moreover have "submissions p n l g (Suc j) \<noteq> []" for p n l g j
    by (simp add: submissions_def)
  ultimately show ?thesis by blast
qed

theorem single_wait_after_all_submissions_witness:
  "[1, 2, 3, 4 :: nat] \<noteq> []
   \<and> transform_reduce 2 id [1, 2, 3, 4 :: nat] id 0 (+)
       = Some (Inr \<lparr> result = 10,
            events = prologue 4 @ [Submit 0 4 2 4, Submit 1 2 2 4] @ [Wait_and_throw, Host_read 0] \<rparr>)
   \<and> (\<exists>subs. events \<lparr> result = 10 :: nat,
            events = prologue 4 @ [Submit 0 4 2 4, Submit 1 2 2 4] @ [Wait_and_throw, Host_read 0] \<rparr>
         = prologue (length [1, 2, 3, 4 :: nat]) @ subs @ [Wait_and_throw, Host_read 0]
           \<and> subs \<noteq> [] \<and> list_all is_Submit subs)"
proof -
  have ne: "[1, 2, 3, 4 :: nat] \<noteq> []" by simp
  have run: "transform_reduce 2 id [1, 2, 3, 4 :: nat] id 0 (+)
       = Some (Inr \<lparr> result = 10,
            events = prologue 4 @ [Submit 0 4 2 4, Submit 1 2 2 4] @ [Wait_and_throw, Host_read 0] \<rparr>)"
    by code_simp
  from single_wait_after_all_submissions [OF ne run] ne run show ?thesis
    by blast
qed

subsection \<open>The value returned\<close>

text \<open>
  Claim C7: the value returned to the caller is \<open>binary_op d init\<close>, where \<open>d\<close> is the
  value in slot 0 of the partial-result buffer after the last pass, at which point the
  logical length is at most 1: the value of the device is the left operand and \<open>init\<close>
  the right one.
\<close>

theorem result_is_slot0_combined_with_init:
  fixes unary_op :: "'a \<Rightarrow> 'b"
  assumes "xs \<noteq> []"
    and "transform_reduce m uninit xs unary_op init binary_op = Some (Inr r)"
  shows "\<exists>s. pass_loop (min m (length xs))
                (calculateGlobalSize (length xs) (min m (length xs))) unary_op binary_op xs
                \<lparr> passes = 0, length' = length xs, bufR = map uninit [0..<length xs],
                  trace = prologue (length xs) \<rparr> = Some s
            \<and> length' s \<le> 1 \<and> 0 < length (bufR s)
            \<and> result r = binary_op (bufR s ! 0) init"
proof -
  from transform_reduce_nonempty [OF assms] obtain s where
    s: "pass_loop (min m (length xs)) (calculateGlobalSize (length xs) (min m (length xs)))
           unary_op binary_op xs
           \<lparr> passes = 0, length' = length xs, bufR = map uninit [0..<length xs],
             trace = prologue (length xs) \<rparr> = Some s"
    and r: "r = \<lparr> result = binary_op (bufR s ! 0) init,
                 events = trace s @ [Wait_and_throw, Host_read 0] \<rparr>"
    by blast
  from pass_loop_shape [OF s] have "length' s \<le> 1" by blast
  moreover from pass_loop_length_bufR [OF s] assms(1) have "0 < length (bufR s)" by simp
  ultimately show ?thesis using s r by auto
qed

theorem result_is_slot0_combined_with_init_witness:
  "[1, 2, 3, 4 :: int] \<noteq> []
   \<and> transform_reduce 2 int [1, 2, 3, 4 :: int] id 100 (-)
       = Some (Inr \<lparr> result = - 100,
            events = prologue 4 @ [Submit 0 4 2 4, Submit 1 2 2 4, Wait_and_throw, Host_read 0] \<rparr>)
   \<and> (\<exists>s. pass_loop (min 2 (length [1, 2, 3, 4 :: int]))
                (calculateGlobalSize (length [1, 2, 3, 4 :: int])
                   (min 2 (length [1, 2, 3, 4 :: int]))) id (-) [1, 2, 3, 4 :: int]
                \<lparr> passes = 0, length' = length [1, 2, 3, 4 :: int],
                  bufR = map int [0..<length [1, 2, 3, 4 :: int]],
                  trace = prologue (length [1, 2, 3, 4 :: int]) \<rparr> = Some s
            \<and> length' s \<le> 1 \<and> 0 < length (bufR s)
            \<and> result \<lparr> result = - 100 :: int,
                 events = prologue 4 @ [Submit 0 4 2 4, Submit 1 2 2 4, Wait_and_throw, Host_read 0] \<rparr>
                = bufR s ! 0 - 100)"
proof -
  have ne: "[1, 2, 3, 4 :: int] \<noteq> []" by simp
  have run: "transform_reduce 2 int [1, 2, 3, 4 :: int] id 100 (-)
       = Some (Inr \<lparr> result = - 100,
            events = prologue 4 @ [Submit 0 4 2 4, Submit 1 2 2 4, Wait_and_throw, Host_read 0] \<rparr>)"
    by code_simp
  from result_is_slot0_combined_with_init [OF ne run] ne run show ?thesis
    by blast
qed

subsection \<open>The local size\<close>

text \<open>
  Claim C8: for a range of positive length and a device whose largest work-group has at
  least one work-item, the local size chosen at the start of the call is the minimum of
  the largest work-group size of the device and the length, it is positive, and every
  pass is submitted with this same local size: after any number \<open>k\<close> of turns of the
  loop, and in the events of a call that has returned.
\<close>

theorem local_size_fixed_at_call_start:
  fixes unary_op :: "'a \<Rightarrow> 'b"
  assumes "xs \<noteq> []" and "0 < m"
  shows "0 < min m (length xs)
     \<and> list_all (\<lambda>e. local_of e = min m (length xs))
         (filter is_Submit
            (trace ((pass_body (min m (length xs))
                       (calculateGlobalSize (length xs) (min m (length xs)))
                       unary_op binary_op xs ^^ k)
                     \<lparr> passes = 0, length' = length xs, bufR = map uninit [0..<length xs],
                       trace = prologue (length xs) \<rparr>)))
     \<and> (transform_reduce m uninit xs unary_op init binary_op = Some (Inr r) \<longrightarrow>
          filter is_Submit (events r) \<noteq> []
          \<and> list_all (\<lambda>e. local_of e = min m (length xs)) (filter is_Submit (events r)))"
proof (intro conjI impI)
  show "0 < min m (length xs)"
    using assms by simp
  show "list_all (\<lambda>e. local_of e = min m (length xs))
         (filter is_Submit
            (trace ((pass_body (min m (length xs))
                       (calculateGlobalSize (length xs) (min m (length xs)))
                       unary_op binary_op xs ^^ k)
                     \<lparr> passes = 0, length' = length xs, bufR = map uninit [0..<length xs],
                       trace = prologue (length xs) \<rparr>)))"
    by (simp add: funpow_pass_body filter_is_Submit_prologue filter_is_Submit_submissions
        local_of_submissions)
next
  assume run: "transform_reduce m uninit xs unary_op init binary_op = Some (Inr r)"
  from transform_reduce_events [OF assms(1) run] obtain j where
    "events r = prologue (length xs)
      @ submissions 0 (length xs) (min m (length xs))
          (calculateGlobalSize (length xs) (min m (length xs))) (Suc j)
      @ [Wait_and_throw, Host_read 0]" ..
  then have subs: "filter is_Submit (events r) = submissions 0 (length xs) (min m (length xs))
          (calculateGlobalSize (length xs) (min m (length xs))) (Suc j)"
    by (simp only: filter_is_Submit_events)
  show "filter is_Submit (events r) \<noteq> []"
    unfolding subs by (simp add: submissions_def)
  show "list_all (\<lambda>e. local_of e = min m (length xs)) (filter is_Submit (events r))"
    unfolding subs by (rule local_of_submissions)
qed

theorem local_size_fixed_at_call_start_witness:
  "[1, 2, 3, 4, 5, 6, 7, 8, 9 :: nat] \<noteq> [] \<and> (0 :: nat) < 2
   \<and> transform_reduce 2 id [1, 2, 3, 4, 5, 6, 7, 8, 9 :: nat] id 0 (+)
       = Some (Inr \<lparr> result = 36,
            events = prologue 9 @ [Submit 0 9 2 10, Submit 1 4 2 10, Submit 2 2 2 10,
              Wait_and_throw, Host_read 0] \<rparr>)
   \<and> 0 < min 2 (length [1, 2, 3, 4, 5, 6, 7, 8, 9 :: nat])
   \<and> list_all (\<lambda>e. local_of e = min 2 (length [1, 2, 3, 4, 5, 6, 7, 8, 9 :: nat]))
       (filter is_Submit
          (trace ((pass_body (min 2 (length [1, 2, 3, 4, 5, 6, 7, 8, 9 :: nat]))
                     (calculateGlobalSize (length [1, 2, 3, 4, 5, 6, 7, 8, 9 :: nat])
                        (min 2 (length [1, 2, 3, 4, 5, 6, 7, 8, 9 :: nat])))
                     id (+) [1, 2, 3, 4, 5, 6, 7, 8, 9 :: nat] ^^ 3)
                   \<lparr> passes = 0, length' = length [1, 2, 3, 4, 5, 6, 7, 8, 9 :: nat],
                     bufR = map id [0..<length [1, 2, 3, 4, 5, 6, 7, 8, 9 :: nat]],
                     trace = prologue (length [1, 2, 3, 4, 5, 6, 7, 8, 9 :: nat]) \<rparr>)))
   \<and> filter is_Submit (events \<lparr> result = 36 :: nat,
            events = prologue 9 @ [Submit 0 9 2 10, Submit 1 4 2 10, Submit 2 2 2 10,
              Wait_and_throw, Host_read 0] \<rparr>) \<noteq> []
   \<and> list_all (\<lambda>e. local_of e = min 2 (length [1, 2, 3, 4, 5, 6, 7, 8, 9 :: nat]))
       (filter is_Submit (events \<lparr> result = 36 :: nat,
            events = prologue 9 @ [Submit 0 9 2 10, Submit 1 4 2 10, Submit 2 2 2 10,
              Wait_and_throw, Host_read 0] \<rparr>))"
proof -
  have ne: "[1, 2, 3, 4, 5, 6, 7, 8, 9 :: nat] \<noteq> []" by simp
  have pos: "(0 :: nat) < 2" by simp
  have run: "transform_reduce 2 id [1, 2, 3, 4, 5, 6, 7, 8, 9 :: nat] id 0 (+)
       = Some (Inr \<lparr> result = 36,
            events = prologue 9 @ [Submit 0 9 2 10, Submit 1 4 2 10, Submit 2 2 2 10,
              Wait_and_throw, Host_read 0] \<rparr>)"
    by code_simp
  from local_size_fixed_at_call_start [OF ne pos, where unary_op = id and binary_op = "(+)"
      and k = 3 and uninit = id and init = 0] ne pos run
  show ?thesis
    by blast
qed

subsection \<open>At least one pass\<close>

text \<open>
  Claim C10: a call on a non-empty range, a range of one element included, submits the
  kernel of pass 0 before the host waits and reads the result: no result of a non-empty
  range is returned without a kernel submission.
\<close>

theorem nonempty_range_submits_before_read:
  fixes unary_op :: "'a \<Rightarrow> 'b"
  assumes "xs \<noteq> []"
    and "transform_reduce m uninit xs unary_op init binary_op = Some (Inr r)"
  shows "\<exists>later. events r =
      prologue (length xs)
      @ Submit 0 (length xs) (min m (length xs))
          (max (calculateGlobalSize (length xs) (min m (length xs))) (min m (length xs)))
        # later @ [Wait_and_throw, Host_read 0]"
proof -
  from transform_reduce_events [OF assms] obtain k where
    "events r = prologue (length xs)
      @ submissions 0 (length xs) (min m (length xs))
          (calculateGlobalSize (length xs) (min m (length xs))) (Suc k)
      @ [Wait_and_throw, Host_read 0]" ..
  then show ?thesis
    by (simp only: submissions_Suc append_Cons) blast
qed

theorem nonempty_range_submits_before_read_witness:
  "[7 :: nat] \<noteq> []
   \<and> transform_reduce 4 id [7 :: nat] Suc 2 (*)
       = Some (Inr \<lparr> result = 16,
            events = prologue 1 @ [Submit 0 1 1 1, Wait_and_throw, Host_read 0] \<rparr>)
   \<and> (\<exists>later. events \<lparr> result = 16 :: nat,
            events = prologue 1 @ [Submit 0 1 1 1, Wait_and_throw, Host_read 0] \<rparr> =
      prologue (length [7 :: nat])
      @ Submit 0 (length [7 :: nat]) (min 4 (length [7 :: nat]))
          (max (calculateGlobalSize (length [7 :: nat]) (min 4 (length [7 :: nat])))
             (min 4 (length [7 :: nat])))
        # later @ [Wait_and_throw, Host_read 0])"
proof -
  have ne: "[7 :: nat] \<noteq> []" by simp
  have run: "transform_reduce 4 id [7 :: nat] Suc 2 (*)
       = Some (Inr \<lparr> result = 16,
            events = prologue 1 @ [Submit 0 1 1 1, Wait_and_throw, Host_read 0] \<rparr>)"
    by code_simp
  from nonempty_range_submits_before_read [OF ne run] ne run show ?thesis
    by blast
qed

subsection \<open>What a work-item ingests, and the pass counter\<close>




subsection \<open>Work-items of the padding\<close>

text \<open>
  Claim C9: in every pass a work-item whose global index is not below the logical length
  is excluded from the tree combine of its group, so that the padding never affects the
  combined result: such a work-item stages no value, and what a group writes is the tree
  combine of the values of exactly those of its work-items that lie below the logical
  length.
\<close>

theorem padding_work_items_do_not_contribute:
  "workitem_ingest p n unary_op aI aR (n + j) = None
   \<and> workgroup_write_to group_id
       (workgroup_run p n local unary_op binary_op aI aR group_id) out =
     workgroup_write_to group_id
       (combine_threads binary_op
          (map (\<lambda>globalid. Some (if p = 0 then unary_op (aI ! globalid) else aR ! globalid))
             [group_id * local..<min (group_id * local + local) n])) out"
  by (simp add: workgroup_run_def workgroup_scratch_padding workgroup_write_to_padding
      workitem_ingest_def workitem_get_from_op_def workitem_get_from_def)

end
